theory Spec2Isabelle
  imports Complex_Main
begin

section \<open>Water chemical potential notebook (project\_2.ipynb)\<close>

text \<open>
  The notebook is one top-to-bottom script over the HTMD toolkit. Its own code is the
  helper \<open>unit_cell\<close>, the computation of \<open>D_max\<close> and \<open>dim_matrix\<close>, the binning loop
  with its \<open>try/except IndexError\<close>, the normalisation and the logarithmic transform.
  What it calls in HTMD, numpy and scipy (\<open>Molecule\<close>, \<open>wrap\<close>, \<open>align\<close>,
  \<open>maxDistance\<close>, the frames \<open>moveBy\<close> translates, the atom selection language,
  \<open>gaussian_filter\<close>) is not part of the repository and enters the model as parameters.

  Numbers: coordinates and grid values are floating-point in the notebook and \<open>real\<close>
  here. Rounding a finite float to an integer is exact, and the counts stay far below
  \<open>2 ^ 53\<close>, so the index logic of the binning loop is the same in both.
\<close>

subsection \<open>Data\<close>

datatype py_error = IndexError | ValueError | NameError | NonFinite

type_synonym vec3 = "real \<times> real \<times> real"

type_synonym grid = "real list list list"

text \<open>
  An HTMD \<open>Molecule\<close>: per-atom attributes, the coordinate array (\<open>coords ! atom ! frame\<close>
  is the slice \<open>coords[atom, :, frame]\<close>) and one step number per frame.
\<close>

record 'a molecule =
  atominfo :: "'a list"
  coords :: "vec3 list list"
  step :: "nat list"

subsection \<open>Library operations on molecules\<close>

text \<open>
  \<open>Molecule.moveBy(vector)\<close> translates the molecule: it adds the vector to the
  position of every atom. The toolkit's code is not in the repository, and which frames
  of the trajectory it translates (all of them, or only the molecule's current frame) is
  not said by the notebook: \<open>moved m frame\<close> tells whether \<open>frame\<close> of \<open>m\<close> is
  translated, and is a parameter.
\<close>

definition moveBy :: "('a molecule \<Rightarrow> nat \<Rightarrow> bool) \<Rightarrow> vec3 \<Rightarrow> 'a molecule \<Rightarrow> 'a molecule" where
  "moveBy moved v m =
     m\<lparr>coords :=
         map (\<lambda>row. map (\<lambda>(frame, (x, y, z)).
                          if moved m frame then (x + fst v, y + fst (snd v), z + snd (snd v))
                          else (x, y, z))
                        (zip [0..<length row] row))
           (coords m)\<rparr>"

text \<open>\<open>Molecule.filter(sel)\<close>: keeps the atoms the selection holds for, removes the rest.\<close>

definition filter_mol :: "('a \<Rightarrow> bool) \<Rightarrow> 'a molecule \<Rightarrow> 'a molecule" where
  "filter_mol sel m =
     (let keep = filter (\<lambda>p. sel (fst p)) (zip (atominfo m) (coords m))
      in m\<lparr>atominfo := map fst keep, coords := map snd keep\<rparr>)"

subsection \<open>Rounding and indexing\<close>

text \<open>\<open>round(x)\<close> of Python 3 and numpy: to the nearest integer, a tie to the even one.\<close>

definition py_round :: "real \<Rightarrow> int" where
  "py_round x =
     (let f = \<lfloor>x\<rfloor>; d = x - of_int f
      in if d < 1 / 2 then f
         else if 1 / 2 < d then f + 1
         else if even f then f else f + 1)"

text \<open>
  Indexing an axis of length \<open>n\<close> with the integer \<open>i\<close>: a negative index counts from
  the end, and an index outside \<open>[-n, n)\<close> raises \<open>IndexError\<close>.
\<close>

definition np_index :: "nat \<Rightarrow> int \<Rightarrow> py_error + nat" where
  "np_index n i =
     (if 0 \<le> i \<and> i < int n then Inr (nat i)
      else if - int n \<le> i \<and> i < 0 then Inr (nat (int n + i))
      else Inl IndexError)"

text \<open>\<open>np.zeros((dim, dim, dim))\<close>; a negative dimension raises \<open>ValueError\<close>.\<close>

definition np_zeros :: "int \<Rightarrow> py_error + grid" where
  "np_zeros n =
     (if n < 0 then Inl ValueError
      else Inr (replicate (nat n) (replicate (nat n) (replicate (nat n) 0))))"

fun cell :: "grid \<Rightarrow> nat \<times> nat \<times> nat \<Rightarrow> real" where
  "cell g (i, j, k) = g ! i ! j ! k"

subsection \<open>The binning loop\<close>

text \<open>
  \<open>matrix[int(round(c[0]))][int(round(c[1]))][int(round(c[2]))] += 1\<close>: each of the three
  subscripts may raise, and then nothing is written.
\<close>

definition matrix_incr :: "grid \<Rightarrow> vec3 \<Rightarrow> py_error + grid" where
  "matrix_incr g c =
     (case c of (x, y, z) \<Rightarrow>
      case np_index (length g) (py_round x) of Inl e \<Rightarrow> Inl e | Inr i \<Rightarrow>
      case np_index (length (g ! i)) (py_round y) of Inl e \<Rightarrow> Inl e | Inr j \<Rightarrow>
      case np_index (length (g ! i ! j)) (py_round z) of Inl e \<Rightarrow> Inl e | Inr k \<Rightarrow>
        Inr (g[i := (g ! i)[j := (g ! i ! j)[k := g ! i ! j ! k + 1]]]))"

text \<open>\<open>water.coords[atom, :, frame]\<close>; out of range raises \<open>IndexError\<close>.\<close>

definition coords_at :: "vec3 list list \<Rightarrow> nat \<Rightarrow> nat \<Rightarrow> py_error + vec3" where
  "coords_at cs atom frame =
     (if atom < length cs \<and> frame < length (cs ! atom) then Inr (cs ! atom ! frame)
      else Inl IndexError)"

text \<open>
  The body of the \<open>try\<close>: the loop over the atoms of one frame. An exception leaves the
  loop; what was written to the matrix before it stays written.
\<close>

fun atom_loop :: "grid \<Rightarrow> vec3 list list \<Rightarrow> nat \<Rightarrow> nat list \<Rightarrow> grid \<times> py_error option" where
  "atom_loop g cs frame [] = (g, None)"
| "atom_loop g cs frame (atom # rest) =
     (case coords_at cs atom frame of
        Inl e \<Rightarrow> (g, Some e)
      | Inr c \<Rightarrow>
          (case matrix_incr g c of
             Inl e \<Rightarrow> (g, Some e)
           | Inr g' \<Rightarrow> atom_loop g' cs frame rest))"

text \<open>\<open>try: ... except IndexError: pass\<close>; any other exception propagates.\<close>

definition try_frame :: "grid \<Rightarrow> vec3 list list \<Rightarrow> nat \<Rightarrow> py_error + grid" where
  "try_frame g cs frame =
     (case atom_loop g cs frame [0..<length cs] of
        (g', None) \<Rightarrow> Inr g'
      | (g', Some IndexError) \<Rightarrow> Inr g'
      | (g', Some e) \<Rightarrow> Inl e)"

fun frame_loop :: "grid \<Rightarrow> vec3 list list \<Rightarrow> nat list \<Rightarrow> py_error + grid" where
  "frame_loop g cs [] = Inr g"
| "frame_loop g cs (frame # rest) =
     (case try_frame g cs frame of
        Inl e \<Rightarrow> Inl e
      | Inr g' \<Rightarrow> frame_loop g' cs rest)"

text \<open>
  The notebook's objects live in a store: \<open>heap\<close> is the list of all molecule objects,
  an object's address is its position. \<open>trajectories\<close> is a list of addresses;
  \<open>moveBy\<close> and \<open>filter\<close> update the object at an address in place, \<open>copy\<close> allocates a
  new object. \<open>water\<close> and \<open>molTraj\<close> are the variables the loop leaves bound.
\<close>

record 'a state =
  heap :: "'a molecule list"
  matrix :: grid
  water :: "nat option"
  molTraj :: "nat option"

definition bin_trajectory ::
  "('a molecule \<Rightarrow> nat \<Rightarrow> bool) \<Rightarrow> ('a \<Rightarrow> bool) \<Rightarrow> int \<Rightarrow> nat \<Rightarrow> 'a state \<Rightarrow> py_error + 'a state" where
  "bin_trajectory moved sel D_max r s =
     (let h1 = (heap s)[r := moveBy moved (of_int D_max, of_int D_max, of_int D_max) (heap s ! r)];
          w = length h1;
          h2 = h1 @ [h1 ! r];
          h3 = h2[w := filter_mol sel (h2 ! w)]
      in case frame_loop (matrix s) (coords (h3 ! w)) [0..<length (step (h3 ! w))] of
           Inl e \<Rightarrow> Inl e
         | Inr g \<Rightarrow> Inr (s\<lparr>heap := h3, matrix := g, water := Some w, molTraj := Some r\<rparr>))"

fun traj_loop ::
  "('a molecule \<Rightarrow> nat \<Rightarrow> bool) \<Rightarrow> ('a \<Rightarrow> bool) \<Rightarrow> int \<Rightarrow> nat list \<Rightarrow> 'a state \<Rightarrow> py_error + 'a state" where
  "traj_loop moved sel D_max [] s = Inr s"
| "traj_loop moved sel D_max (r # rest) s =
     (case bin_trajectory moved sel D_max r s of
        Inl e \<Rightarrow> Inl e
      | Inr s' \<Rightarrow> traj_loop moved sel D_max rest s')"

subsection \<open>The notebook, cell by cell\<close>

text \<open>
  The functions of HTMD and scipy the notebook calls. \<open>moveBy_frames m frame\<close> tells
  whether \<open>Molecule.moveBy\<close> translates \<open>frame\<close> of the molecule \<open>m\<close>; \<open>water_OH2\<close> is
  the selection \<open>'water and name OH2'\<close> as the toolkit evaluates it on one atom.
\<close>

record ('s, 'a) lib =
  Molecule :: "'s \<Rightarrow> 'a molecule"
  wrap :: "'a molecule \<Rightarrow> 'a molecule"
  align :: "'a molecule \<Rightarrow> 'a molecule"
  maxDistance :: "'a molecule \<Rightarrow> real"
  moveBy_frames :: "'a molecule \<Rightarrow> nat \<Rightarrow> bool"
  water_OH2 :: "'a \<Rightarrow> bool"
  gaussian_filter :: "grid \<Rightarrow> real \<Rightarrow> grid"

definition unit_cell :: "('s, 'a) lib \<Rightarrow> 's \<Rightarrow> 'a molecule" where
  "unit_cell L s = align L (wrap L (Molecule L s))"

text \<open>\<open>int(np.max(np.round(D)))\<close>; \<open>np.max\<close> of an empty array raises \<open>ValueError\<close>.\<close>

definition D_max_of :: "real list \<Rightarrow> py_error + int" where
  "D_max_of D = (case map py_round D of [] \<Rightarrow> Inl ValueError | r # rs \<Rightarrow> Inr (fold max rs r))"

text \<open>
  Cells 2 to 8: the trajectories (each a new object, at addresses \<open>0, 1, ...\<close>),
  \<open>D_max\<close>, the empty matrix and the binning loop.
\<close>

definition binned :: "('s, 'a) lib \<Rightarrow> 's list \<Rightarrow> py_error + int \<times> 'a state" where
  "binned L sims =
     (let trajectories = map (unit_cell L) sims;
          D = map (maxDistance L) trajectories
      in case D_max_of D of
           Inl e \<Rightarrow> Inl e
         | Inr D_max \<Rightarrow>
             (case np_zeros (D_max * 2 + 10) of
                Inl e \<Rightarrow> Inl e
              | Inr m \<Rightarrow>
                  (case traj_loop (moveBy_frames L) (water_OH2 L) D_max [0..<length trajectories]
                          \<lparr>heap = trajectories, matrix = m, water = None, molTraj = None\<rparr> of
                     Inl e \<Rightarrow> Inl e
                   | Inr s \<Rightarrow> Inr (D_max, s))))"

text \<open>
  \<open>len(water.step) * len(water.coords) * len(sims)\<close>, with \<open>water\<close> as the binning loop
  left it; an unbound \<open>water\<close> raises \<open>NameError\<close>.
\<close>

definition denominator :: "'a state \<Rightarrow> nat \<Rightarrow> py_error + nat" where
  "denominator s nsims =
     (case water s of
        None \<Rightarrow> Inl NameError
      | Some w \<Rightarrow> Inr (length (step (heap s ! w)) * length (coords (heap s ! w)) * nsims))"

text \<open>
  \<open>matrix / d\<close> and \<open>- kB * T * np.log(norm_matrix + 1e-20)\<close>, cell by cell. Where numpy
  would produce \<open>inf\<close> or \<open>nan\<close> (a zero divisor, the logarithm of a number that is
  not positive) the real-valued model has no value and stops with \<open>NonFinite\<close>.
\<close>

definition normalize :: "grid \<Rightarrow> nat \<Rightarrow> py_error + grid" where
  "normalize m d = (if d = 0 then Inl NonFinite else Inr (map (map (map (\<lambda>x. x / real d))) m))"

definition kB :: real where
  "kB = 1987191 / 10 ^ 9"

definition T :: real where
  "T = 298"

definition log_arg :: "real \<Rightarrow> real" where
  "log_arg p = p + 1 / 10 ^ 20"

definition log_transform :: "grid \<Rightarrow> py_error + grid" where
  "log_transform nm =
     (if \<forall>p \<in> set nm. \<forall>r \<in> set p. \<forall>x \<in> set r. 0 < log_arg x
      then Inr (map (map (map (\<lambda>x. - kB * T * ln (log_arg x)))) nm)
      else Inl NonFinite)"

text \<open>
  The variables of the finished notebook: the objects and loop variables (\<open>matrix\<close>
  rebound to the smoothed array), and what cells 10 to 15 compute, write and show.
\<close>

record 'a notebook =
  vars :: "'a state"
  D_max :: int
  dim_matrix :: int
  norm_matrix :: grid
  occupancy :: grid
  box_cube :: "grid \<times> (int \<times> int \<times> int) \<times> (int \<times> int \<times> int) \<times> (int \<times> int \<times> int)"
  viewed :: "nat option"

definition run :: "('s, 'a) lib \<Rightarrow> 's list \<Rightarrow> py_error + 'a notebook" where
  "run L sims =
     (case binned L sims of
        Inl e \<Rightarrow> Inl e
      | Inr (D, s) \<Rightarrow>
          (let smoothed = gaussian_filter L (matrix s) (3 / 2);
               s' = s\<lparr>matrix := smoothed\<rparr>
           in case denominator s' (length sims) of
                Inl e \<Rightarrow> Inl e
              | Inr d \<Rightarrow>
                  (case normalize smoothed d of
                     Inl e \<Rightarrow> Inl e
                   | Inr nm \<Rightarrow>
                       (case log_transform nm of
                          Inl e \<Rightarrow> Inl e
                        | Inr occ \<Rightarrow>
                            Inr \<lparr>vars = s', D_max = D, dim_matrix = D * 2 + 10,
                                 norm_matrix = nm, occupancy = occ,
                                 box_cube = (occ, (0, 0, 0),
                                    (D * 2 + 10, D * 2 + 10, D * 2 + 10), (1, 1, 1)),
                                 viewed = molTraj s'\<rparr>))))"

subsection \<open>Vocabulary of the properties\<close>

text \<open>
  A grid is a cube of side \<open>n\<close> when all three axes have length \<open>n\<close>; \<open>inside n\<close> are
  the index triples of its cells.
\<close>

definition cube :: "nat \<Rightarrow> grid \<Rightarrow> bool" where
  "cube n g \<longleftrightarrow>
     length g = n \<and> (\<forall>i < n. length (g ! i) = n \<and> (\<forall>j < n. length (g ! i ! j) = n))"

definition inside :: "nat \<Rightarrow> nat \<times> nat \<times> nat \<Rightarrow> bool" where
  "inside n q = (case q of (i, j, k) \<Rightarrow> i < n \<and> j < n \<and> k < n)"

definition nonneg :: "nat \<Rightarrow> grid \<Rightarrow> bool" where
  "nonneg n g \<longleftrightarrow> (\<forall>q. inside n q \<longrightarrow> 0 \<le> cell g q)"

text \<open>
  The subscripts an axis of length \<open>n\<close> accepts, the position a subscript designates
  (a negative one counted from the end), and both for the three rounded coordinates of
  a position.
\<close>

definition accepted :: "nat \<Rightarrow> int \<Rightarrow> bool" where
  "accepted n i \<longleftrightarrow> - int n \<le> i \<and> i < int n"

definition wrapped :: "nat \<Rightarrow> int \<Rightarrow> nat" where
  "wrapped n i = (if i < 0 then nat (int n + i) else nat i)"

definition rounded :: "vec3 \<Rightarrow> int \<times> int \<times> int" where
  "rounded c = (case c of (x, y, z) \<Rightarrow> (py_round x, py_round y, py_round z))"

definition hits :: "nat \<Rightarrow> vec3 \<Rightarrow> bool" where
  "hits n c = (case rounded c of (i, j, k) \<Rightarrow> accepted n i \<and> accepted n j \<and> accepted n k)"

definition target :: "nat \<Rightarrow> vec3 \<Rightarrow> nat \<times> nat \<times> nat" where
  "target n c = (case rounded c of (i, j, k) \<Rightarrow> (wrapped n i, wrapped n j, wrapped n k))"

definition in_bounds :: "nat \<Rightarrow> vec3 \<Rightarrow> bool" where
  "in_bounds n c =
     (case rounded c of (i, j, k) \<Rightarrow> 0 \<le> i \<and> i < int n \<and> 0 \<le> j \<and> j < int n \<and> 0 \<le> k \<and> k < int n)"

definition designated :: "vec3 \<Rightarrow> nat \<times> nat \<times> nat \<Rightarrow> bool" where
  "designated c q = (case q of (i, j, k) \<Rightarrow> rounded c = (int i, int j, int k))"

text \<open>One more count in one cell.\<close>

definition bump :: "grid \<Rightarrow> nat \<times> nat \<times> nat \<Rightarrow> grid" where
  "bump g q = (case q of (i, j, k) \<Rightarrow> g[i := (g ! i)[j := (g ! i ! j)[k := g ! i ! j ! k + 1]]])"

text \<open>
  The cells the atom loop of one frame increments, in order: it stops at the first atom
  whose read or increment raises.
\<close>

fun counted :: "nat \<Rightarrow> vec3 list list \<Rightarrow> nat \<Rightarrow> nat list \<Rightarrow> (nat \<times> nat \<times> nat) list" where
  "counted n cs frame [] = []"
| "counted n cs frame (atom # rest) =
     (case coords_at cs atom frame of
        Inl e \<Rightarrow> []
      | Inr c \<Rightarrow> if hits n c then target n c # counted n cs frame rest else [])"

definition frame_cells :: "nat \<Rightarrow> vec3 list list \<Rightarrow> nat list \<Rightarrow> (nat \<times> nat \<times> nat) list" where
  "frame_cells n cs frames = concat (map (\<lambda>frame. counted n cs frame [0..<length cs]) frames)"

definition mol_cells :: "nat \<Rightarrow> 'a molecule \<Rightarrow> (nat \<times> nat \<times> nat) list" where
  "mol_cells n m = frame_cells n (coords m) [0..<length (step m)]"

text \<open>
  A trajectory after \<open>moveBy([D_max, D_max, D_max])\<close>, and its water copy after the
  filter.
\<close>

definition translated :: "('a molecule \<Rightarrow> nat \<Rightarrow> bool) \<Rightarrow> int \<Rightarrow> 'a molecule \<Rightarrow> 'a molecule" where
  "translated moved D m = moveBy moved (of_int D, of_int D, of_int D) m"

definition water_copy ::
  "('a molecule \<Rightarrow> nat \<Rightarrow> bool) \<Rightarrow> ('a \<Rightarrow> bool) \<Rightarrow> int \<Rightarrow> 'a molecule \<Rightarrow> 'a molecule" where
  "water_copy moved sel D m = filter_mol sel (translated moved D m)"

definition observed_cells ::
  "nat \<Rightarrow> ('a molecule \<Rightarrow> nat \<Rightarrow> bool) \<Rightarrow> ('a \<Rightarrow> bool) \<Rightarrow> int \<Rightarrow> 'a molecule list \<Rightarrow> nat list \<Rightarrow> (nat \<times> nat \<times> nat) list" where
  "observed_cells n moved sel D h refs = concat (map (\<lambda>r. mol_cells n (water_copy moved sel D (h ! r))) refs)"

text \<open>
  The observations: the position of every atom of a molecule in every frame, frame by
  frame as the loop visits them, and those of the water copies of a list of
  trajectories.
\<close>

definition positions :: "'a molecule \<Rightarrow> vec3 list" where
  "positions m =
     concat (map (\<lambda>frame. map (\<lambda>atom. coords m ! atom ! frame) [0..<length (coords m)])
               [0..<length (step m)])"

definition observations ::
  "('a molecule \<Rightarrow> nat \<Rightarrow> bool) \<Rightarrow> ('a \<Rightarrow> bool) \<Rightarrow> int \<Rightarrow> 'a molecule list \<Rightarrow> vec3 list" where
  "observations moved sel D ms = concat (map (\<lambda>m. positions (water_copy moved sel D m)) ms)"

text \<open>
  The water copy of the last trajectory, the divisor the notebook takes from it, the
  number of observations of all trajectories, and the case where every trajectory has
  the frame count and the water oxygen count of the last one.
\<close>

definition last_water :: "('s, 'a) lib \<Rightarrow> int \<Rightarrow> 's list \<Rightarrow> 'a molecule" where
  "last_water L D sims = water_copy (moveBy_frames L) (water_OH2 L) D (unit_cell L (last sims))"

definition divisor :: "('s, 'a) lib \<Rightarrow> int \<Rightarrow> 's list \<Rightarrow> nat" where
  "divisor L D sims =
     length (step (last_water L D sims)) * length (coords (last_water L D sims)) * length sims"

definition total_observations :: "('s, 'a) lib \<Rightarrow> int \<Rightarrow> 's list \<Rightarrow> nat" where
  "total_observations L D sims =
     sum_list (map (\<lambda>s. length (step (water_copy (moveBy_frames L) (water_OH2 L) D (unit_cell L s))) *
                         length (coords (water_copy (moveBy_frames L) (water_OH2 L) D (unit_cell L s)))) sims)"

definition uniform :: "('s, 'a) lib \<Rightarrow> int \<Rightarrow> 's list \<Rightarrow> bool" where
  "uniform L D sims \<longleftrightarrow>
     (\<forall>s \<in> set sims.
        length (step (water_copy (moveBy_frames L) (water_OH2 L) D (unit_cell L s))) =
          length (step (last_water L D sims)) \<and>
        length (coords (water_copy (moveBy_frames L) (water_OH2 L) D (unit_cell L s))) =
          length (coords (last_water L D sims)))"

text \<open>
  What the properties of the later cells assume of \<open>scipy.ndimage.gaussian_filter\<close>:
  the result has the shape of the input, and a nonnegative input gives a nonnegative
  result (its kernel weights are positive).
\<close>

definition smoothing_ok :: "('s, 'a) lib \<Rightarrow> bool" where
  "smoothing_ok L \<longleftrightarrow>
     (\<forall>n g sigma. cube n g \<and> nonneg n g \<longrightarrow>
        cube n (gaussian_filter L g sigma) \<and> nonneg n (gaussian_filter L g sigma))"

subsection \<open>Concrete inputs\<close>

text \<open>
  Two toolkits for the examples. In both a simulation is its molecule, already wrapped
  and aligned; every atom of a first frame is within distance 1 of the origin, so
  \<open>D_max = 1\<close> and the grid has side 12; atoms are named, \<open>OH2\<close> being a water
  oxygen; the smoothing leaves the grid as it is. With \<open>ex_lib\<close> the translation moves
  every frame, with \<open>ex_lib0\<close> only the current frame of a loaded molecule, frame 0.
\<close>

definition ex_lib :: "(string molecule, string) lib" where
  "ex_lib = \<lparr>Molecule = (\<lambda>s. s), wrap = (\<lambda>m. m), align = (\<lambda>m. m), maxDistance = (\<lambda>m. 1),
             moveBy_frames = (\<lambda>m frame. True), water_OH2 = (\<lambda>a. a = ''OH2''),
             gaussian_filter = (\<lambda>g sigma. g)\<rparr>"

definition ex_lib0 :: "(string molecule, string) lib" where
  "ex_lib0 = \<lparr>Molecule = (\<lambda>s. s), wrap = (\<lambda>m. m), align = (\<lambda>m. m), maxDistance = (\<lambda>m. 1),
              moveBy_frames = (\<lambda>m frame. frame = 0), water_OH2 = (\<lambda>a. a = ''OH2''),
              gaussian_filter = (\<lambda>g sigma. g)\<rparr>"

text \<open>
  One water oxygen and one other atom. \<open>ex_drift\<close>: two frames, the water at \<open>x = -2\<close>
  in the second. \<open>ex_cross\<close>: two frames, the water at \<open>x = -2\<close> and \<open>y = 30\<close> in the
  second. \<open>ex_short\<close> has one frame, \<open>ex_long\<close> three.
\<close>

definition ex_drift :: "string molecule" where
  "ex_drift = \<lparr>atominfo = [''OH2'', ''CA''],
               coords = [[(1, 0, 0), (- 2, 0, 0)], [(0, 0, 0), (0, 0, 0)]], step = [0, 1]\<rparr>"

definition ex_cross :: "string molecule" where
  "ex_cross = \<lparr>atominfo = [''OH2'', ''CA''],
               coords = [[(1, 0, 0), (- 2, 30, 0)], [(0, 0, 0), (0, 0, 0)]], step = [0, 1]\<rparr>"

definition ex_short :: "string molecule" where
  "ex_short = \<lparr>atominfo = [''OH2'', ''CA''], coords = [[(1, 0, 0)], [(0, 0, 0)]], step = [0]\<rparr>"

definition ex_long :: "string molecule" where
  "ex_long = \<lparr>atominfo = [''OH2'', ''CA''],
              coords = [[(1, 0, 0), (1, 1, 0), (1, 1, 1)], [(0, 0, 0), (0, 0, 0), (0, 0, 0)]],
              step = [0, 1, 2]\<rparr>"

text \<open>
  Two water oxygens, two frames. \<open>ex_escape\<close>: in the second frame the first one has
  left the grid (\<open>x = 20\<close>), the second one has not moved. \<open>ex_late\<close>: in the second
  frame the first one has left the grid and the second one is at \<open>x = -2\<close>.
\<close>

definition ex_escape :: "string molecule" where
  "ex_escape = \<lparr>atominfo = [''OH2'', ''OH2''],
                coords = [[(1, 0, 0), (20, 0, 0)], [(0, 0, 0), (0, 0, 0)]], step = [0, 1]\<rparr>"

definition ex_late :: "string molecule" where
  "ex_late = \<lparr>atominfo = [''OH2'', ''OH2''],
              coords = [[(1, 0, 0), (20, 0, 0)], [(0, 0, 0), (- 2, 0, 0)]], step = [0, 1]\<rparr>"

section \<open>Properties of the binning loop\<close>

lemma np_index_accepted: "np_index n i = (if accepted n i then Inr (wrapped n i) else Inl IndexError)"
  by (auto simp: np_index_def accepted_def wrapped_def)

lemma wrapped_less: "accepted n i \<Longrightarrow> wrapped n i < n"
  by (auto simp: accepted_def wrapped_def)

lemma cube_nth: "cube n g \<Longrightarrow> i < n \<Longrightarrow> length (g ! i) = n"
  by (auto simp: cube_def)

lemma cube_nth_nth: "cube n g \<Longrightarrow> i < n \<Longrightarrow> j < n \<Longrightarrow> length (g ! i ! j) = n"
  by (auto simp: cube_def)

lemma cube_length: "cube n g \<Longrightarrow> length g = n"
  by (simp add: cube_def)

lemma target_inside: "hits n c \<Longrightarrow> inside n (target n c)"
  by (auto simp: hits_def target_def inside_def rounded_def wrapped_less split: prod.splits)

lemma matrix_incr_cube:
  assumes "cube n g"
  shows "matrix_incr g c = (if hits n c then Inr (bump g (target n c)) else Inl IndexError)"
proof -
  obtain x y z where c: "c = (x, y, z)" by (cases c) auto
  show ?thesis
    using assms
    by (simp add: c matrix_incr_def np_index_accepted hits_def target_def rounded_def bump_def
        cube_length cube_nth cube_nth_nth wrapped_less)
qed

lemma nth_update_any: "xs[i := x] ! j = (if i = j \<and> i < length xs then x else xs ! j)"
  by (cases "i < length xs") (auto simp: nth_list_update list_update_beyond)

lemma cube_bump: "cube n g \<Longrightarrow> cube n (bump g q)"
proof -
  assume a: "cube n g"
  obtain i j k where q: "q = (i, j, k)" by (cases q) auto
  show ?thesis
    using a unfolding cube_def q bump_def
    by (auto simp: nth_update_any)
qed

lemma cell_bump:
  assumes "cube n g" "inside n q" "inside n q'"
  shows "cell (bump g q) q' = cell g q' + (if q' = q then 1 else 0)"
proof -
  obtain i j k where q: "q = (i, j, k)" by (cases q) auto
  obtain a b c where q': "q' = (a, b, c)" by (cases q') auto
  show ?thesis
    using assms
    by (auto simp: q q' bump_def inside_def cube_length cube_nth cube_nth_nth nth_list_update)
qed

lemma atom_loop_error: "snd (atom_loop g cs frame atoms) = None \<or> snd (atom_loop g cs frame atoms) = Some IndexError"
proof (induction atoms arbitrary: g)
  case Nil
  show ?case by simp
next
  case (Cons a atoms)
  show ?case
  proof (cases "coords_at cs a frame")
    case (Inl e)
    then show ?thesis by (auto simp: coords_at_def split: if_splits)
  next
    case (Inr c)
    show ?thesis
    proof (cases "matrix_incr g c")
      case (Inl e)
      then have "e = IndexError"
        by (auto simp: matrix_incr_def np_index_def split: prod.splits sum.splits if_splits)
      with Inl Inr show ?thesis by simp
    next
      case r: (Inr g')
      with Inr Cons.IH [of g'] show ?thesis by simp
    qed
  qed
qed

lemma atom_loop_cells:
  assumes "cube n g"
  shows "cube n (fst (atom_loop g cs frame atoms)) \<and>
         (\<forall>q. inside n q \<longrightarrow>
            cell (fst (atom_loop g cs frame atoms)) q =
            cell g q + real (count_list (counted n cs frame atoms) q))"
  using assms
proof (induction atoms arbitrary: g)
  case Nil
  then show ?case by simp
next
  case (Cons a atoms)
  show ?case
  proof (cases "coords_at cs a frame")
    case (Inl e)
    with Cons.prems show ?thesis by simp
  next
    case (Inr c)
    show ?thesis
    proof (cases "hits n c")
      case False
      with Inr Cons.prems show ?thesis by (simp add: matrix_incr_cube)
    next
      case True
      let ?g = "bump g (target n c)"
      have c: "cube n ?g" using Cons.prems by (rule cube_bump)
      have unroll: "atom_loop g cs frame (a # atoms) = atom_loop ?g cs frame atoms"
        using Inr True Cons.prems by (simp add: matrix_incr_cube)
      have cnt: "counted n cs frame (a # atoms) = target n c # counted n cs frame atoms"
        using Inr True by simp
      have ins: "inside n (target n c)" using True by (rule target_inside)
      show ?thesis
        unfolding unroll cnt
        using Cons.IH [OF c] cell_bump [OF Cons.prems ins]
        by (simp del: cell.simps)
    qed
  qed
qed

lemma try_frame_eq: "try_frame g cs frame = Inr (fst (atom_loop g cs frame [0..<length cs]))"
  using atom_loop_error [of g cs frame "[0..<length cs]"]
  by (cases "atom_loop g cs frame [0..<length cs]") (auto simp: try_frame_def)

lemma frame_loop_cells:
  assumes "cube n g"
  shows "\<exists>g'. frame_loop g cs frames = Inr g' \<and> cube n g' \<and>
         (\<forall>q. inside n q \<longrightarrow> cell g' q = cell g q + real (count_list (frame_cells n cs frames) q))"
  using assms
proof (induction frames arbitrary: g)
  case Nil
  then show ?case by (simp add: frame_cells_def)
next
  case (Cons f frames)
  let ?g = "fst (atom_loop g cs f [0..<length cs])"
  from atom_loop_cells [OF Cons.prems, of cs f "[0..<length cs]"]
  have c: "cube n ?g"
    and v: "\<And>q. inside n q \<Longrightarrow> cell ?g q = cell g q + real (count_list (counted n cs f [0..<length cs]) q)"
    by auto
  from Cons.IH [OF c] obtain g' where
    g': "frame_loop ?g cs frames = Inr g'" "cube n g'"
      "\<And>q. inside n q \<Longrightarrow> cell g' q = cell ?g q + real (count_list (frame_cells n cs frames) q)"
    by auto
  have "frame_loop g cs (f # frames) = Inr g'"
    by (simp add: try_frame_eq g')
  moreover have "\<And>q. inside n q \<Longrightarrow>
      cell g' q = cell g q + real (count_list (frame_cells n cs (f # frames)) q)"
    by (simp add: g' v frame_cells_def)
  ultimately show ?case using g'(2) by auto
qed

lemma update_last: "length xs = k \<Longrightarrow> (xs @ [a])[k := b] = xs @ [b]"
  by auto

lemma bin_trajectory_eq:
  assumes "cube n (matrix s)" "r < length (heap s)"
  shows "\<exists>g'. bin_trajectory moved sel D r s =
           Inr (s\<lparr>heap := (heap s)[r := translated moved D (heap s ! r)]
                            @ [water_copy moved sel D (heap s ! r)],
                  matrix := g', water := Some (length (heap s)), molTraj := Some r\<rparr>) \<and>
         cube n g' \<and>
         (\<forall>q. inside n q \<longrightarrow>
            cell g' q = cell (matrix s) q
              + real (count_list (mol_cells n (water_copy moved sel D (heap s ! r))) q))"
proof -
  let ?W = "water_copy moved sel D (heap s ! r)"
  from frame_loop_cells [OF assms(1), of "coords ?W" "[0..<length (step ?W)]"]
  obtain g' where g': "frame_loop (matrix s) (coords ?W) [0..<length (step ?W)] = Inr g'"
    "cube n g'"
    "\<forall>q. inside n q \<longrightarrow> cell g' q = cell (matrix s) q + real (count_list (mol_cells n ?W) q)"
    by (auto simp: mol_cells_def)
  have "bin_trajectory moved sel D r s =
      Inr (s\<lparr>heap := (heap s)[r := translated moved D (heap s ! r)] @ [?W],
             matrix := g', water := Some (length (heap s)), molTraj := Some r\<rparr>)"
    using assms(2) g'(1)
    by (simp add: bin_trajectory_def Let_def water_copy_def translated_def nth_append update_last)
  with g'(2,3) show ?thesis by blast
qed

lemma traj_loop_effect:
  assumes "cube n (matrix s)" "\<forall>r \<in> set refs. r < length (heap s)" "distinct refs"
  shows "\<exists>s'. traj_loop moved sel D refs s = Inr s' \<and>
     cube n (matrix s') \<and>
     (\<forall>q. inside n q \<longrightarrow>
        cell (matrix s') q = cell (matrix s) q + real (count_list (observed_cells n moved sel D (heap s) refs) q)) \<and>
     length (heap s') = length (heap s) + length refs \<and>
     (\<forall>a < length (heap s).
        heap s' ! a = (if a \<in> set refs then translated moved D (heap s ! a) else heap s ! a)) \<and>
     (\<forall>i < length refs. heap s' ! (length (heap s) + i) = water_copy moved sel D (heap s ! (refs ! i))) \<and>
     (refs = [] \<longrightarrow> s' = s) \<and>
     (refs \<noteq> [] \<longrightarrow> water s' = Some (length (heap s) + length refs - 1) \<and> molTraj s' = Some (last refs))"
  using assms
proof (induction refs arbitrary: s)
  case Nil
  then show ?case by (simp add: observed_cells_def)
next
  case (Cons r rest)
  let ?h = "heap s"
  let ?W = "water_copy moved sel D (?h ! r)"
  have r: "r < length ?h" using Cons.prems(2) by simp
  from bin_trajectory_eq [OF Cons.prems(1) r, of moved sel D]
  obtain g1 where s1: "bin_trajectory moved sel D r s =
        Inr (s\<lparr>heap := ?h[r := translated moved D (?h ! r)] @ [?W],
               matrix := g1, water := Some (length ?h), molTraj := Some r\<rparr>)"
    and c1: "cube n g1"
    and v1: "\<And>q. inside n q \<Longrightarrow> cell g1 q = cell (matrix s) q + real (count_list (mol_cells n ?W) q)"
    by blast
  define s1 where "s1 = s\<lparr>heap := ?h[r := translated moved D (?h ! r)] @ [?W],
               matrix := g1, water := Some (length ?h), molTraj := Some r\<rparr>"
  have h1: "heap s1 = ?h[r := translated moved D (?h ! r)] @ [?W]" and m1: "matrix s1 = g1"
    and w1: "water s1 = Some (length ?h)" and t1: "molTraj s1 = Some r"
    by (simp_all add: s1_def)
  have len1: "length (heap s1) = Suc (length ?h)" by (simp add: h1)
  have old: "\<And>a. a < length ?h \<Longrightarrow> heap s1 ! a = (if a = r then translated moved D (?h ! a) else ?h ! a)"
    by (simp add: h1 nth_append nth_list_update)
  have new: "heap s1 ! length ?h = ?W"
    by (simp add: h1 nth_append)
  have rest_old: "\<And>a. a \<in> set rest \<Longrightarrow> heap s1 ! a = ?h ! a"
    using Cons.prems(2,3) old by auto
  have p1: "cube n (matrix s1)" using c1 m1 by simp
  have p2: "\<forall>a \<in> set rest. a < length (heap s1)" using Cons.prems(2) len1 by auto
  have p3: "distinct rest" using Cons.prems(3) by simp
  from Cons.IH [OF p1 p2 p3] obtain s' where
    run: "traj_loop moved sel D rest s1 = Inr s'"
    and c': "cube n (matrix s')"
    and v': "\<And>q. inside n q \<Longrightarrow> cell (matrix s') q =
          cell (matrix s1) q + real (count_list (observed_cells n moved sel D (heap s1) rest) q)"
    and len': "length (heap s') = length (heap s1) + length rest"
    and old': "\<And>a. a < length (heap s1) \<Longrightarrow>
          heap s' ! a = (if a \<in> set rest then translated moved D (heap s1 ! a) else heap s1 ! a)"
    and new': "\<And>i. i < length rest \<Longrightarrow>
          heap s' ! (length (heap s1) + i) = water_copy moved sel D (heap s1 ! (rest ! i))"
    and nil': "rest = [] \<Longrightarrow> s' = s1"
    and last': "rest \<noteq> [] \<Longrightarrow>
          water s' = Some (length (heap s1) + length rest - 1) \<and> molTraj s' = Some (last rest)"
    by blast
  have obs: "observed_cells n moved sel D (heap s1) rest = observed_cells n moved sel D ?h rest"
    unfolding observed_cells_def using rest_old by (auto intro: arg_cong [where f = concat])
  have g1: "traj_loop moved sel D (r # rest) s = Inr s'"
    using s1 run by (simp add: s1_def)
  have g3: "\<forall>q. inside n q \<longrightarrow> cell (matrix s') q =
      cell (matrix s) q + real (count_list (observed_cells n moved sel D ?h (r # rest)) q)"
    using v' [unfolded obs m1] v1 by (simp add: observed_cells_def del: cell.simps)
  have g4: "length (heap s') = length ?h + length (r # rest)"
    using len' len1 by simp
  have g5: "\<forall>a < length ?h.
      heap s' ! a = (if a \<in> set (r # rest) then translated moved D (?h ! a) else ?h ! a)"
  proof (intro allI impI)
    fix a assume a: "a < length ?h"
    then have "a < length (heap s1)" using len1 by simp
    from old' [OF this] old [OF a] Cons.prems(3)
    show "heap s' ! a = (if a \<in> set (r # rest) then translated moved D (?h ! a) else ?h ! a)"
      by auto
  qed
  have g6: "\<forall>i < length (r # rest). heap s' ! (length ?h + i) = water_copy moved sel D (?h ! ((r # rest) ! i))"
  proof (intro allI impI)
    fix i assume i: "i < length (r # rest)"
    show "heap s' ! (length ?h + i) = water_copy moved sel D (?h ! ((r # rest) ! i))"
    proof (cases i)
      case 0
      have "length ?h < length (heap s1)" using len1 by simp
      from old' [OF this] have "heap s' ! length ?h = heap s1 ! length ?h"
        using Cons.prems(2) by auto
      with new 0 show ?thesis by simp
    next
      case (Suc k)
      then have k: "k < length rest" using i by simp
      from new' [OF k] have "heap s' ! (length ?h + i) = water_copy moved sel D (heap s1 ! (rest ! k))"
        using len1 Suc by simp
      also have "heap s1 ! (rest ! k) = ?h ! (rest ! k)"
        using rest_old k by simp
      finally show ?thesis using Suc by simp
    qed
  qed
  have g8: "water s' = Some (length ?h + length (r # rest) - 1) \<and> molTraj s' = Some (last (r # rest))"
  proof (cases "rest = []")
    case True
    with nil' w1 t1 show ?thesis by simp
  next
    case False
    with last' len1 show ?thesis by simp
  qed
  from g1 c' g3 g4 g5 g6 g8 show ?case by blast
qed

lemma zeros_cube: "np_zeros d = Inr m \<Longrightarrow> cube (nat d) m"
  by (auto simp: np_zeros_def cube_def split: if_splits)

lemma zeros_cell: "np_zeros d = Inr m \<Longrightarrow> inside (nat d) q \<Longrightarrow> cell m q = 0"
  by (cases q) (auto simp: np_zeros_def inside_def split: if_splits)

section \<open>Properties of the notebook\<close>

lemma cell_map3: "cube n g \<Longrightarrow> inside n q \<Longrightarrow> cell (map (map (map f)) g) q = f (cell g q)"
  by (cases q) (auto simp: cube_def inside_def)

lemma cube_map3: "cube n g \<Longrightarrow> cube n (map (map (map f)) g)"
  by (auto simp: cube_def)

lemma all_cells:
  assumes "cube n g"
  shows "(\<forall>p \<in> set g. \<forall>r \<in> set p. \<forall>x \<in> set r. P x) \<longleftrightarrow> (\<forall>q. inside n q \<longrightarrow> P (cell g q))"
proof
  assume l: "\<forall>p \<in> set g. \<forall>r \<in> set p. \<forall>x \<in> set r. P x"
  show "\<forall>q. inside n q \<longrightarrow> P (cell g q)"
  proof (intro allI impI)
    fix q assume q: "inside n q"
    obtain i j k where ijk: "q = (i, j, k)" by (cases q) auto
    from q ijk assms have "g ! i \<in> set g" "g ! i ! j \<in> set (g ! i)" "g ! i ! j ! k \<in> set (g ! i ! j)"
      by (auto simp: inside_def cube_def)
    with l show "P (cell g q)" by (auto simp: ijk)
  qed
next
  assume r: "\<forall>q. inside n q \<longrightarrow> P (cell g q)"
  show "\<forall>p \<in> set g. \<forall>r \<in> set p. \<forall>x \<in> set r. P x"
  proof (intro ballI)
    fix p r' x assume "p \<in> set g" "r' \<in> set p" "x \<in> set r'"
    then obtain i j k where "i < length g" "p = g ! i" "j < length p" "r' = p ! j"
      "k < length r'" "x = r' ! k"
      by (auto simp: in_set_conv_nth)
    then have "inside n (i, j, k)" "x = cell g (i, j, k)"
      using assms by (auto simp: inside_def cube_def)
    with r show "P x" by auto
  qed
qed

lemma py_round_nonneg: "0 \<le> x \<Longrightarrow> 0 \<le> py_round x"
  by (auto simp: py_round_def Let_def)

lemma fold_max_ge: "(r :: int) \<le> fold max rs r"
proof (induction rs arbitrary: r)
  case Nil
  show ?case by simp
next
  case (Cons a rs)
  have "r \<le> max a r" by simp
  also have "\<dots> \<le> fold max rs (max a r)" by (rule Cons.IH)
  finally show ?case by simp
qed

lemma D_max_of_total:
  assumes "D \<noteq> []" and "0 \<le> hd D"
  shows "\<exists>d. D_max_of D = Inr d \<and> 0 \<le> d"
proof -
  from assms(1) obtain x xs where D: "D = x # xs" by (cases D) auto
  have "0 \<le> py_round x" using assms(2) D by (simp add: py_round_nonneg)
  also have "\<dots> \<le> fold max (map py_round xs) (py_round x)" by (rule fold_max_ge)
  finally show ?thesis by (simp add: D_max_of_def D)
qed

lemma binned_effect:
  assumes "binned L sims = Inr (D, s)"
  shows "sims \<noteq> [] \<and> 
         (\<exists>m. np_zeros (D * 2 + 10) = Inr m \<and>
              traj_loop (moveBy_frames L) (water_OH2 L) D [0..<length sims]
                \<lparr>heap = map (unit_cell L) sims, matrix = m, water = None, molTraj = None\<rparr> = Inr s)"
  using assms
  by (auto simp: binned_def Let_def D_max_of_def split: sum.splits list.splits)

lemma binned_state:
  assumes "binned L sims = Inr (D, s)"
  shows "cube (nat (D * 2 + 10)) (matrix s) \<and> nonneg (nat (D * 2 + 10)) (matrix s) \<and>
         length (heap s) = 2 * length sims \<and>
         (\<forall>i < length sims. heap s ! i = translated (moveBy_frames L) D (unit_cell L (sims ! i))) \<and>
         (\<forall>i < length sims. heap s ! (length sims + i) = water_copy (moveBy_frames L) (water_OH2 L) D (unit_cell L (sims ! i))) \<and>
         water s = Some (2 * length sims - 1) \<and> molTraj s = Some (length sims - 1) \<and>
         heap s ! (2 * length sims - 1) = last_water L D sims"
proof -
  let ?n = "nat (D * 2 + 10)"
  from binned_effect [OF assms] obtain m where ne: "sims \<noteq> []"
    and z: "np_zeros (D * 2 + 10) = Inr m"
    and run: "traj_loop (moveBy_frames L) (water_OH2 L) D [0..<length sims]
                \<lparr>heap = map (unit_cell L) sims, matrix = m, water = None, molTraj = None\<rparr> = Inr s"
    by blast
  let ?s0 = "\<lparr>heap = map (unit_cell L) sims, matrix = m, water = None, molTraj = None\<rparr>"
  have c: "cube ?n (matrix ?s0)" using zeros_cube [OF z] by simp
  have v: "\<forall>r \<in> set [0..<length sims]. r < length (heap ?s0)" by simp
  have d: "distinct [0..<length sims]" by simp
  from traj_loop_effect [OF c v d, of "moveBy_frames L" "water_OH2 L" D] run
  have cube: "cube ?n (matrix s)"
    and cells: "\<And>q. inside ?n q \<Longrightarrow> cell (matrix s) q = cell (matrix ?s0) q
        + real (count_list (observed_cells ?n (moveBy_frames L) (water_OH2 L) D (heap ?s0) [0..<length sims]) q)"
    and len: "length (heap s) = length (heap ?s0) + length [0..<length sims]"
    and old: "\<And>a. a < length (heap ?s0) \<Longrightarrow> heap s ! a =
        (if a \<in> set [0..<length sims] then translated (moveBy_frames L) D (heap ?s0 ! a) else heap ?s0 ! a)"
    and new: "\<And>i. i < length [0..<length sims] \<Longrightarrow>
        heap s ! (length (heap ?s0) + i) = water_copy (moveBy_frames L) (water_OH2 L) D (heap ?s0 ! ([0..<length sims] ! i))"
    and vars: "[0..<length sims] \<noteq> [] \<Longrightarrow>
        water s = Some (length (heap ?s0) + length [0..<length sims] - 1) \<and>
        molTraj s = Some (last [0..<length sims])"
    by auto
  have nn: "nonneg ?n (matrix s)"
    unfolding nonneg_def
  proof (intro allI impI)
    fix q assume q: "inside ?n q"
    from cells [OF q] zeros_cell [OF z q] show "0 \<le> cell (matrix s) q" by (simp del: cell.simps)
  qed
  have l: "length (heap s) = 2 * length sims" using len by simp
  have o: "\<forall>i < length sims. heap s ! i = translated (moveBy_frames L) D (unit_cell L (sims ! i))"
    using old by simp
  have w: "\<forall>i < length sims. heap s ! (length sims + i) = water_copy (moveBy_frames L) (water_OH2 L) D (unit_cell L (sims ! i))"
    using new by simp
  have pos: "0 < length sims" using ne by simp
  have wv: "water s = Some (2 * length sims - 1)" "molTraj s = Some (length sims - 1)"
    using vars pos by (simp_all add: last_upt)
  have "heap s ! (length sims + (length sims - 1)) = water_copy (moveBy_frames L) (water_OH2 L) D (unit_cell L (sims ! (length sims - 1)))"
    using w pos by simp
  moreover have "length sims + (length sims - 1) = 2 * length sims - 1" using pos by simp
  ultimately have lw: "heap s ! (2 * length sims - 1) = last_water L D sims"
    using ne by (simp add: last_water_def last_conv_nth)
  from cube nn l o w wv lw show ?thesis by blast
qed

lemma binned_cells:
  assumes "binned L sims = Inr (D, s)" and "inside (nat (D * 2 + 10)) q"
  shows "cell (matrix s) q =
     real (count_list (observed_cells (nat (D * 2 + 10)) (moveBy_frames L) (water_OH2 L) D (map (unit_cell L) sims)
             [0..<length (map (unit_cell L) sims)]) q)"
proof -
  let ?n = "nat (D * 2 + 10)"
  from binned_effect [OF assms(1)] obtain m where
    z: "np_zeros (D * 2 + 10) = Inr m"
    and run: "traj_loop (moveBy_frames L) (water_OH2 L) D [0..<length sims]
                \<lparr>heap = map (unit_cell L) sims, matrix = m, water = None, molTraj = None\<rparr> = Inr s"
    by blast
  let ?s0 = "\<lparr>heap = map (unit_cell L) sims, matrix = m, water = None, molTraj = None\<rparr>"
  have c: "cube ?n (matrix ?s0)" using zeros_cube [OF z] by simp
  have v: "\<forall>r \<in> set [0..<length sims]. r < length (heap ?s0)" by simp
  have d: "distinct [0..<length sims]" by simp
  from traj_loop_effect [OF c v d, of "moveBy_frames L" "water_OH2 L" D] obtain s' where
    "traj_loop (moveBy_frames L) (water_OH2 L) D [0..<length sims] ?s0 = Inr s'"
    and cells: "\<And>q. inside ?n q \<Longrightarrow> cell (matrix s') q = cell (matrix ?s0) q
        + real (count_list (observed_cells ?n (moveBy_frames L) (water_OH2 L) D (heap ?s0) [0..<length sims]) q)"
    by blast
  with run have "s' = s" by simp
  with cells [OF assms(2)] zeros_cell [OF z assms(2)] show ?thesis by (simp del: cell.simps)
qed

lemma binned_total:
  assumes "sims \<noteq> []" and "0 \<le> maxDistance L (unit_cell L (hd sims))"
  shows "\<exists>D s. binned L sims = Inr (D, s) \<and> 0 \<le> D"
proof -
  let ?Ds = "map (maxDistance L) (map (unit_cell L) sims)"
  have "?Ds \<noteq> []" "0 \<le> hd ?Ds" using assms by (simp_all add: hd_map)
  from D_max_of_total [OF this] obtain d where d: "D_max_of ?Ds = Inr d" "0 \<le> d" by blast
  then obtain m where m: "np_zeros (d * 2 + 10) = Inr m" by (auto simp: np_zeros_def)
  let ?s0 = "\<lparr>heap = map (unit_cell L) sims, matrix = m, water = None, molTraj = None\<rparr>"
  have c: "cube (nat (d * 2 + 10)) (matrix ?s0)" using zeros_cube [OF m] by simp
  have v: "\<forall>r \<in> set [0..<length sims]. r < length (heap ?s0)" by simp
  have di: "distinct [0..<length sims]" by simp
  from traj_loop_effect [OF c v di, of "moveBy_frames L" "water_OH2 L" d] obtain s where
    "traj_loop (moveBy_frames L) (water_OH2 L) d [0..<length sims] ?s0 = Inr s" by blast
  with d m have "binned L sims = Inr (d, s)" by (simp add: binned_def Let_def)
  with d(2) show ?thesis by blast
qed

lemma run_binned:
  assumes "run L sims = Inr nb"
  shows "\<exists>s. binned L sims = Inr (D_max nb, s)"
  using assms by (auto simp: run_def Let_def split: sum.splits prod.splits)

lemma denominator_binned:
  assumes "binned L sims = Inr (D, s)"
  shows "denominator (s\<lparr>matrix := G\<rparr>) (length sims) = Inr (divisor L D sims)"
  using binned_state [OF assms] by (simp add: denominator_def divisor_def)

lemma run_fields:
  assumes "run L sims = Inr nb" and "binned L sims = Inr (D, s)"
  shows "vars nb = s\<lparr>matrix := gaussian_filter L (matrix s) (3 / 2)\<rparr> \<and>
         D_max nb = D \<and> dim_matrix nb = D * 2 + 10 \<and>
         divisor L D sims \<noteq> 0 \<and>
         norm_matrix nb = map (map (map (\<lambda>x. x / real (divisor L D sims))))
                            (gaussian_filter L (matrix s) (3 / 2)) \<and>
         log_transform (norm_matrix nb) = Inr (occupancy nb) \<and>
         occupancy nb = map (map (map (\<lambda>x. - kB * T * ln (log_arg x)))) (norm_matrix nb)"
  using assms denominator_binned [OF assms(2), of "gaussian_filter L (matrix s) (3 / 2)"]
  by (auto simp: run_def Let_def normalize_def log_transform_def split: sum.splits if_splits)

lemma run_total:
  assumes "binned L sims = Inr (D, s)" and "smoothing_ok L" and "divisor L D sims \<noteq> 0"
  shows "\<exists>nb. run L sims = Inr nb"
proof -
  let ?n = "nat (D * 2 + 10)"
  let ?G = "gaussian_filter L (matrix s) (3 / 2)"
  let ?d = "divisor L D sims"
  let ?N = "map (map (map (\<lambda>x. x / real ?d))) ?G"
  from binned_state [OF assms(1)] have "cube ?n (matrix s)" "nonneg ?n (matrix s)" by auto
  with assms(2) have G: "cube ?n ?G" "nonneg ?n ?G" by (auto simp: smoothing_ok_def)
  have cN: "cube ?n ?N" using G(1) by (rule cube_map3)
  have "\<forall>q. inside ?n q \<longrightarrow> 0 < log_arg (cell ?N q)"
  proof (intro allI impI)
    fix q assume q: "inside ?n q"
    have "0 \<le> cell ?G q" using G(2) q unfolding nonneg_def by blast
    then have "0 \<le> cell ?G q / real ?d" by simp
    then show "0 < log_arg (cell ?N q)"
      by (simp add: cell_map3 [OF G(1) q] log_arg_def del: cell.simps)
  qed
  then have pos: "\<forall>p \<in> set ?N. \<forall>r \<in> set p. \<forall>x \<in> set r. 0 < log_arg x"
    by (simp only: all_cells [OF cN])
  have lt: "log_transform ?N = Inr (map (map (map (\<lambda>x. - kB * T * ln (log_arg x)))) ?N)"
    unfolding log_transform_def by (rule if_P [OF pos])
  show ?thesis
    using assms(1,3) denominator_binned [OF assms(1), of ?G] lt
    by (simp add: run_def Let_def normalize_def)
qed

lemma log_transform_Inr:
  assumes "log_transform nm = Inr occ" and "cube n nm" and "inside n q"
  shows "0 < log_arg (cell nm q)"
proof -
  from assms(1) have "\<forall>p \<in> set nm. \<forall>r \<in> set p. \<forall>x \<in> set r. 0 < log_arg x"
    by (simp add: log_transform_def split: if_splits)
  then have "\<forall>q. inside n q \<longrightarrow> 0 < log_arg (cell nm q)"
    by (simp only: all_cells [OF assms(2)])
  with assms(3) show ?thesis by blast
qed

lemma sum_list_const: "(\<forall>x \<in> set xs. f x = c) \<Longrightarrow> sum_list (map f xs) = c * length xs"
  by (induction xs) auto

lemma uniform_total: "uniform L D sims \<Longrightarrow> divisor L D sims = total_observations L D sims"
  unfolding uniform_def divisor_def total_observations_def
  by (subst sum_list_const [where c = "length (step (last_water L D sims)) * length (coords (last_water L D sims))"]) auto

lemma moveBy_fields:
  "atominfo (moveBy moved v m) = atominfo m" "step (moveBy moved v m) = step m"
  "length (coords (moveBy moved v m)) = length (coords m)"
  by (simp_all add: moveBy_def)

lemma ex_lib_smoothing: "smoothing_ok ex_lib"
  by (simp add: smoothing_ok_def ex_lib_def)

lemma counted_member:
  assumes "k < length atoms"
    and "\<forall>a \<in> set (take (Suc k) atoms). a < length cs \<and> frame < length (cs ! a) \<and> hits n (cs ! a ! frame)"
  shows "target n (cs ! (atoms ! k) ! frame) \<in> set (counted n cs frame atoms)"
  using assms
proof (induction atoms arbitrary: k)
  case Nil
  then show ?case by simp
next
  case (Cons a atoms)
  from Cons.prems(2) have a: "a < length cs" "frame < length (cs ! a)" "hits n (cs ! a ! frame)"
    by simp_all
  then have c: "counted n cs frame (a # atoms) = target n (cs ! a ! frame) # counted n cs frame atoms"
    by (simp add: coords_at_def)
  show ?case
  proof (cases k)
    case 0
    then show ?thesis unfolding c by simp
  next
    case (Suc k')
    with Cons.prems have "k' < length atoms"
      and "\<forall>a \<in> set (take (Suc k') atoms). a < length cs \<and> frame < length (cs ! a) \<and> hits n (cs ! a ! frame)"
      by simp_all
    from Cons.IH [OF this] Suc show ?thesis unfolding c by simp
  qed
qed

lemma mol_cells_member:
  assumes "frame < length (step m)" and "atom < length (coords m)"
    and "\<forall>a \<le> atom. frame < length (coords m ! a) \<and> hits n (coords m ! a ! frame)"
  shows "target n (coords m ! atom ! frame) \<in> set (mol_cells n m)"
proof -
  let ?cs = "coords m"
  have k: "atom < length [0..<length ?cs]" using assms(2) by simp
  have "take (Suc atom) [0..<length ?cs] = [0..<Suc atom]"
    using assms(2) by (simp add: take_upt)
  then have p: "\<forall>a \<in> set (take (Suc atom) [0..<length ?cs]).
      a < length ?cs \<and> frame < length (?cs ! a) \<and> hits n (?cs ! a ! frame)"
    using assms(2,3) by auto
  from counted_member [OF k p]
  have "target n (?cs ! atom ! frame) \<in> set (counted n ?cs frame [0..<length ?cs])"
    using assms(2) by simp
  with assms(1) show ?thesis
    by (auto simp: mol_cells_def frame_cells_def)
qed

section \<open>The claims\<close>

text \<open>
  C1. The handler discards more than the offending increment. With \<open>D_max = 1\<close> (a grid
  of side 12) and the trajectory \<open>ex_escape\<close>, the first water oxygen has left the grid
  in the second frame: its subscript (21 when the translation moves every frame, 20 when
  it moves the first frame only) raises \<open>IndexError\<close>, and the \<open>try\<close> around the atom loop
  abandons the rest of that frame. The second water oxygen of that frame is in bounds
  (at \<open>(1, 1, 1)\<close>, or at \<open>(0, 0, 0)\<close>) and is not counted: cell \<open>(1, 1, 1)\<close> holds 1
  where two observations round to it, or cell \<open>(0, 0, 0)\<close> holds 0 where one does.
\<close>

theorem C1_frame_abandoned_after_IndexError:
  "\<not> isl (binned ex_lib [ex_escape]) \<and> fst (projr (binned ex_lib [ex_escape])) = 1 \<and>
   observations (moveBy_frames ex_lib) (water_OH2 ex_lib) 1 (map (unit_cell ex_lib) [ex_escape]) =
     [(2, 1, 1), (1, 1, 1), (21, 1, 1), (1, 1, 1)] \<and>
   in_bounds 12 (1, 1, 1) \<and>
   length (filter (\<lambda>c. designated c (1, 1, 1))
             (observations (moveBy_frames ex_lib) (water_OH2 ex_lib) 1
                (map (unit_cell ex_lib) [ex_escape]))) = 2 \<and>
   cell (matrix (snd (projr (binned ex_lib [ex_escape])))) (1, 1, 1) = 1 \<and>
   \<not> isl (binned ex_lib0 [ex_escape]) \<and> fst (projr (binned ex_lib0 [ex_escape])) = 1 \<and>
   observations (moveBy_frames ex_lib0) (water_OH2 ex_lib0) 1 (map (unit_cell ex_lib0) [ex_escape]) =
     [(2, 1, 1), (1, 1, 1), (20, 0, 0), (0, 0, 0)] \<and>
   in_bounds 12 (0, 0, 0) \<and>
   length (filter (\<lambda>c. designated c (0, 0, 0))
             (observations (moveBy_frames ex_lib0) (water_OH2 ex_lib0) 1
                (map (unit_cell ex_lib0) [ex_escape]))) = 1 \<and>
   cell (matrix (snd (projr (binned ex_lib0 [ex_escape])))) (0, 0, 0) = 0"
  by code_simp

text \<open>
  C2. In a finished run every cell of the output map is
  \<open>- kB * T * ln (p + 1e-20)\<close> with \<open>kB = 0.001987191\<close> and \<open>T = 298\<close>, where \<open>p\<close> is
  the cell of the smoothed histogram (\<open>gaussian_filter\<close> with sigma 1.5, applied to the
  binned matrix) divided by frames times water oxygens times trajectories; frames and
  water oxygens are those of the water copy of the last trajectory. The smoothing is
  assumed to keep the shape of the grid.
\<close>

theorem C2_occupancy_formula:
  assumes "run L sims = Inr nb" and "binned L sims = Inr (D, s)"
    and "cube (nat (D * 2 + 10)) (gaussian_filter L (matrix s) (3 / 2))"
    and "inside (nat (D * 2 + 10)) q"
  shows "matrix (vars nb) = gaussian_filter L (matrix s) (3 / 2) \<and>
         cell (occupancy nb) q =
           - (1987191 / 10 ^ 9) * 298 *
             ln (cell (matrix (vars nb)) q /
                   real (length (step (last_water L D sims)) * length (coords (last_water L D sims)) * length sims)
                 + 1 / 10 ^ 20)"
proof -
  let ?G = "gaussian_filter L (matrix s) (3 / 2)"
  let ?f = "\<lambda>x. x / real (divisor L D sims)"
  let ?l = "\<lambda>x. - kB * T * ln (log_arg x)"
  from run_fields [OF assms(1,2)]
  have v0: "vars nb = s\<lparr>matrix := ?G\<rparr>"
    and n: "norm_matrix nb = map (map (map ?f)) ?G"
    and o: "occupancy nb = map (map (map ?l)) (norm_matrix nb)"
    by blast+
  have v: "matrix (vars nb) = ?G" unfolding v0 by simp
  have cn: "cube (nat (D * 2 + 10)) (norm_matrix nb)"
    unfolding n using assms(3) by (rule cube_map3)
  have "cell (occupancy nb) q = ?l (cell (norm_matrix nb) q)"
    unfolding o using cn assms(4) by (rule cell_map3)
  also have "cell (norm_matrix nb) q = ?f (cell ?G q)"
    unfolding n using assms(3,4) by (rule cell_map3)
  finally show ?thesis
    using v by (simp add: kB_def T_def log_arg_def divisor_def del: cell.simps)
qed

theorem C2_occupancy_formula_witness:
  "\<exists>nb s. run ex_lib [ex_drift] = Inr nb \<and> binned ex_lib [ex_drift] = Inr (1, s) \<and>
      cell (occupancy nb) (2, 1, 1) =
        - (1987191 / 10 ^ 9) * 298 * ln (cell (matrix (vars nb)) (2, 1, 1) / real (2 * 1 * 1) + 1 / 10 ^ 20)"
proof -
  have "\<exists>D s. binned ex_lib [ex_drift] = Inr (D, s) \<and> 0 \<le> D"
    by (rule binned_total) (simp_all add: ex_lib_def)
  then obtain D s where b: "binned ex_lib [ex_drift] = Inr (D, s)" by blast
  have "fst (projr (binned ex_lib [ex_drift])) = 1" by code_simp
  with b have D: "D = 1" by simp
  have d: "divisor ex_lib 1 [ex_drift] = 2" by code_simp
  have lw: "length (step (last_water ex_lib 1 [ex_drift])) = 2"
    "length (coords (last_water ex_lib 1 [ex_drift])) = 1" by code_simp+
  from run_total [OF b [unfolded D] ex_lib_smoothing] d
  obtain nb where r: "run ex_lib [ex_drift] = Inr nb" by auto
  from binned_state [OF b [unfolded D]]
  have c: "cube (nat (1 * 2 + 10)) (gaussian_filter ex_lib (matrix s) (3 / 2))"
    by (simp add: ex_lib_def)
  have i: "inside (nat (1 * 2 + 10)) (2, 1, 1)" by (simp add: inside_def)
  from C2_occupancy_formula [OF r b [unfolded D] c i] r b [unfolded D]
  show ?thesis unfolding lw by auto
qed

text \<open>
  C3. A cell can hold a count no observation rounds to. With \<open>D_max = 1\<close> and the
  trajectory \<open>ex_drift\<close>, the water oxygen of the second frame has a negative rounded
  coordinate (\<open>(-1, 1, 1)\<close> when the translation moves every frame, \<open>(-2, 0, 0)\<close> when
  it moves the first frame only); the increment is performed with the negative
  subscript, and cell \<open>(11, 1, 1)\<close>, or \<open>(10, 0, 0)\<close>, holds 1 although no observation
  rounds to that index triple.
\<close>

theorem C3_wrapped_observation_counted:
  "\<not> isl (binned ex_lib [ex_drift]) \<and> fst (projr (binned ex_lib [ex_drift])) = 1 \<and>
   observations (moveBy_frames ex_lib) (water_OH2 ex_lib) 1 (map (unit_cell ex_lib) [ex_drift]) =
     [(2, 1, 1), (- 1, 1, 1)] \<and>
   filter (\<lambda>c. designated c (11, 1, 1))
     (observations (moveBy_frames ex_lib) (water_OH2 ex_lib) 1 (map (unit_cell ex_lib) [ex_drift])) = [] \<and>
   cell (matrix (snd (projr (binned ex_lib [ex_drift])))) (11, 1, 1) = 1 \<and>
   \<not> isl (binned ex_lib0 [ex_drift]) \<and> fst (projr (binned ex_lib0 [ex_drift])) = 1 \<and>
   observations (moveBy_frames ex_lib0) (water_OH2 ex_lib0) 1 (map (unit_cell ex_lib0) [ex_drift]) =
     [(2, 1, 1), (- 2, 0, 0)] \<and>
   filter (\<lambda>c. designated c (10, 0, 0))
     (observations (moveBy_frames ex_lib0) (water_OH2 ex_lib0) 1 (map (unit_cell ex_lib0) [ex_drift])) = [] \<and>
   cell (matrix (snd (projr (binned ex_lib0 [ex_drift])))) (10, 0, 0) = 1"
  by code_simp

text \<open>
  C4. An increment is performed with a subscript outside \<open>[0, dim_matrix)\<close>: on a grid
  of side 12 the position \<open>(-1, 1, 1)\<close> is counted in cell \<open>(11, 1, 1)\<close> and the
  position \<open>(-2, 0, 0)\<close> in cell \<open>(10, 0, 0)\<close>, cells their rounded coordinates do not
  designate. These are the positions of the water oxygen of \<open>ex_drift\<close> in the second
  frame (for a translation of every frame, and of the first frame only), and the
  \<open>try\<close> of that frame ends with the count written.
\<close>

theorem C4_negative_subscript_incremented:
  "matrix_incr (replicate 12 (replicate 12 (replicate 12 0))) (- 1, 1, 1) =
     Inr (bump (replicate 12 (replicate 12 (replicate 12 0))) (11, 1, 1)) \<and>
   rounded (- 1, 1, 1) = (- 1, 1, 1) \<and> \<not> designated (- 1, 1, 1) (11, 1, 1) \<and>
   coords (water_copy (moveBy_frames ex_lib) (water_OH2 ex_lib) 1 (unit_cell ex_lib ex_drift)) ! 0 ! 1 =
     (- 1, 1, 1) \<and>
   try_frame (replicate 12 (replicate 12 (replicate 12 0)))
     (coords (water_copy (moveBy_frames ex_lib) (water_OH2 ex_lib) 1 (unit_cell ex_lib ex_drift))) 1 =
     Inr (bump (replicate 12 (replicate 12 (replicate 12 0))) (11, 1, 1)) \<and>
   matrix_incr (replicate 12 (replicate 12 (replicate 12 0))) (- 2, 0, 0) =
     Inr (bump (replicate 12 (replicate 12 (replicate 12 0))) (10, 0, 0)) \<and>
   rounded (- 2, 0, 0) = (- 2, 0, 0) \<and> \<not> designated (- 2, 0, 0) (10, 0, 0) \<and>
   coords (water_copy (moveBy_frames ex_lib0) (water_OH2 ex_lib0) 1 (unit_cell ex_lib0 ex_drift)) ! 0 ! 1 =
     (- 2, 0, 0) \<and>
   try_frame (replicate 12 (replicate 12 (replicate 12 0)))
     (coords (water_copy (moveBy_frames ex_lib0) (water_OH2 ex_lib0) 1 (unit_cell ex_lib0 ex_drift))) 1 =
     Inr (bump (replicate 12 (replicate 12 (replicate 12 0))) (10, 0, 0))"
  by code_simp

text \<open>
  C6. The counts of the histogram are nonnegative; given a smoothing that keeps
  nonnegative grids nonnegative and a positive divisor, the notebook runs to its end,
  every cell of \<open>norm_matrix + 1e-20\<close> is strictly positive and the logarithm is taken
  of positive numbers only.
\<close>

theorem C6_log_argument_positive:
  assumes "binned L sims = Inr (D, s)" and "smoothing_ok L"
    and "0 < length (step (last_water L D sims)) * length (coords (last_water L D sims)) * length sims"
  shows "nonneg (nat (D * 2 + 10)) (matrix s) \<and>
         (\<exists>nb. run L sims = Inr nb \<and>
            log_transform (norm_matrix nb) = Inr (occupancy nb) \<and>
            (\<forall>q. inside (nat (D * 2 + 10)) q \<longrightarrow> 0 < cell (norm_matrix nb) q + 1 / 10 ^ 20))"
proof -
  let ?n = "nat (D * 2 + 10)"
  let ?G = "gaussian_filter L (matrix s) (3 / 2)"
  have d: "divisor L D sims \<noteq> 0" using assms(3) by (simp add: divisor_def)
  from binned_state [OF assms(1)] have c: "cube ?n (matrix s)" and nn: "nonneg ?n (matrix s)"
    by auto
  with assms(2) have G: "cube ?n ?G" by (auto simp: smoothing_ok_def)
  from run_total [OF assms(1,2) d] obtain nb where r: "run L sims = Inr nb" by blast
  from run_fields [OF r assms(1)]
  have n: "norm_matrix nb = map (map (map (\<lambda>x. x / real (divisor L D sims)))) ?G"
    and l: "log_transform (norm_matrix nb) = Inr (occupancy nb)"
    by blast+
  have cn: "cube ?n (norm_matrix nb)" unfolding n using G by (rule cube_map3)
  have "\<forall>q. inside ?n q \<longrightarrow> 0 < cell (norm_matrix nb) q + 1 / 10 ^ 20"
    using log_transform_Inr [OF l cn] by (simp add: log_arg_def del: cell.simps)
  with nn r l show ?thesis by blast
qed

theorem C6_log_argument_positive_witness:
  "\<exists>nb. run ex_lib [ex_drift, ex_short] = Inr nb \<and>
      log_transform (norm_matrix nb) = Inr (occupancy nb) \<and>
      0 < cell (norm_matrix nb) (2, 1, 1) + 1 / 10 ^ 20 \<and> 0 < cell (norm_matrix nb) (0, 0, 0) + 1 / 10 ^ 20"
proof -
  let ?sims = "[ex_drift, ex_short]"
  have "\<exists>D s. binned ex_lib ?sims = Inr (D, s) \<and> 0 \<le> D"
    by (rule binned_total) (simp_all add: ex_lib_def)
  then obtain D s where b: "binned ex_lib ?sims = Inr (D, s)" by blast
  have "fst (projr (binned ex_lib ?sims)) = 1" by code_simp
  with b have D: "D = 1" by simp
  note b1 = b [unfolded D]
  have p: "0 < length (step (last_water ex_lib 1 ?sims)) * length (coords (last_water ex_lib 1 ?sims)) * length ?sims"
    by code_simp
  from C6_log_argument_positive [OF b1 ex_lib_smoothing p] show ?thesis
    by (auto simp: inside_def simp del: cell.simps)
qed

text \<open>
  C8 (as amended). Take an observation of the binning loop: a water oxygen of a
  trajectory in a frame. If one of its rounded translated coordinates is negative, all
  three are subscripts numpy accepts (in \<open>[-dim_matrix, dim_matrix)\<close>), and the same
  holds of every earlier atom of that frame (none raises), then the loop finishes and
  the observation is counted: the cell whose index on an axis with a negative subscript
  \<open>i\<close> is \<open>dim_matrix + i\<close>, counted from the opposite edge, lies in the grid and
  holds at least this count.
\<close>

theorem C8_negative_index_counted:
  assumes "binned L sims = Inr (D, s)" and "n = nat (D * 2 + 10)"
    and "t < length sims"
    and "W = water_copy (moveBy_frames L) (water_OH2 L) D (unit_cell L (sims ! t))"
    and "frame < length (step W)" and "atom < length (coords W)"
    and "\<forall>a \<le> atom. frame < length (coords W ! a) \<and> hits n (coords W ! a ! frame)"
    and "rounded (coords W ! atom ! frame) = (i, j, k)"
    and "i < 0 \<or> j < 0 \<or> k < 0"
  shows "inside n (wrapped n i, wrapped n j, wrapped n k) \<and>
         1 \<le> cell (matrix s) (wrapped n i, wrapped n j, wrapped n k) \<and>
         (i < 0 \<longrightarrow> int (wrapped n i) = int n + i) \<and>
         (j < 0 \<longrightarrow> int (wrapped n j) = int n + j) \<and>
         (k < 0 \<longrightarrow> int (wrapped n k) = int n + k)"
proof -
  let ?c = "coords W ! atom ! frame"
  let ?q = "(wrapped n i, wrapped n j, wrapped n k)"
  let ?ms = "map (unit_cell L) sims"
  have h: "hits n ?c" using assms(7) by simp
  have t: "target n ?c = ?q" using assms(8) by (simp add: target_def)
  have ins: "inside n ?q" using target_inside [OF h] t by simp
  have acc: "accepted n i" "accepted n j" "accepted n k"
    using h assms(8) by (simp_all add: hits_def)
  have w: "\<And>x. accepted n x \<Longrightarrow> x < 0 \<Longrightarrow> int (wrapped n x) = int n + x"
    by (auto simp: accepted_def wrapped_def)
  have "target n ?c \<in> set (mol_cells n W)"
    using assms(5,6,7) by (rule mol_cells_member)
  moreover have "W = water_copy (moveBy_frames L) (water_OH2 L) D (?ms ! t)"
    using assms(3,4) by simp
  ultimately have "?q \<in> set (observed_cells n (moveBy_frames L) (water_OH2 L) D ?ms [0..<length ?ms])"
    using assms(3) t by (auto simp: observed_cells_def)
  then have "0 < count_list (observed_cells n (moveBy_frames L) (water_OH2 L) D ?ms [0..<length ?ms]) ?q"
    by (metis count_list_0_iff neq0_conv)
  moreover have "cell (matrix s) ?q =
      real (count_list (observed_cells n (moveBy_frames L) (water_OH2 L) D ?ms [0..<length ?ms]) ?q)"
    using binned_cells [OF assms(1)] ins unfolding assms(2) by blast
  ultimately have "1 \<le> cell (matrix s) ?q" by simp
  with ins w acc show ?thesis by blast
qed

theorem C8_negative_index_counted_witness:
  "(\<exists>s. binned ex_lib [ex_drift] = Inr (1, s) \<and> 1 \<le> cell (matrix s) (11, 1, 1)) \<and>
   (\<exists>s. binned ex_lib0 [ex_drift] = Inr (1, s) \<and> 1 \<le> cell (matrix s) (10, 0, 0))"
proof -
  have "\<exists>D s. binned ex_lib [ex_drift] = Inr (D, s) \<and> 0 \<le> D"
    by (rule binned_total) (simp_all add: ex_lib_def)
  then obtain D s where b: "binned ex_lib [ex_drift] = Inr (D, s)" by blast
  have "fst (projr (binned ex_lib [ex_drift])) = 1" by code_simp
  with b have b1: "binned ex_lib [ex_drift] = Inr (1, s)" by simp
  let ?W = "water_copy (moveBy_frames ex_lib) (water_OH2 ex_lib) 1 (unit_cell ex_lib ([ex_drift] ! 0))"
  have f: "1 < length (step ?W)" "0 < length (coords ?W)" by code_simp+
  have p: "\<forall>a \<le> 0. 1 < length (coords ?W ! a) \<and> hits 12 (coords ?W ! a ! 1)"
    by simp code_simp
  have r: "rounded (coords ?W ! 0 ! 1) = (- 1, 1, 1)" by code_simp
  have w: "wrapped 12 (- 1) = 11" "wrapped 12 1 = 1" by code_simp+
  have n12: "(12::nat) = nat (1 * 2 + 10)" and t0: "0 < length [ex_drift]" by simp_all
  have neg: "(- 1 :: int) < 0 \<or> (1 :: int) < 0 \<or> (1 :: int) < 0" by simp
  from C8_negative_index_counted [OF b1 n12 t0 refl f p r neg]
  have 1: "1 \<le> cell (matrix s) (11, 1, 1)" by (simp add: w del: cell.simps)
  have "\<exists>D s. binned ex_lib0 [ex_drift] = Inr (D, s) \<and> 0 \<le> D"
    by (rule binned_total) (simp_all add: ex_lib0_def)
  then obtain D' s' where b': "binned ex_lib0 [ex_drift] = Inr (D', s')" by blast
  have "fst (projr (binned ex_lib0 [ex_drift])) = 1" by code_simp
  with b' have b1': "binned ex_lib0 [ex_drift] = Inr (1, s')" by simp
  let ?W' = "water_copy (moveBy_frames ex_lib0) (water_OH2 ex_lib0) 1 (unit_cell ex_lib0 ([ex_drift] ! 0))"
  have f': "1 < length (step ?W')" "0 < length (coords ?W')" by code_simp+
  have p': "\<forall>a \<le> 0. 1 < length (coords ?W' ! a) \<and> hits 12 (coords ?W' ! a ! 1)"
    by simp code_simp
  have r': "rounded (coords ?W' ! 0 ! 1) = (- 2, 0, 0)" by code_simp
  have w': "wrapped 12 (- 2) = 10" "wrapped 12 0 = 0" by code_simp+
  have neg': "(- 2 :: int) < 0 \<or> (0 :: int) < 0 \<or> (0 :: int) < 0" by simp
  from C8_negative_index_counted [OF b1' n12 t0 refl f' p' r' neg']
  have 2: "1 \<le> cell (matrix s') (10, 0, 0)" by (simp add: w' del: cell.simps)
  from b1 1 b1' 2 show ?thesis by blast
qed

text \<open>
  The claim as stated fails. In the second frame of \<open>ex_cross\<close> the rounded \<open>x\<close> of the
  water oxygen is negative and small, but its \<open>y\<close> subscript raises \<open>IndexError\<close> and
  the observation is lost. In the second frame of \<open>ex_late\<close> the second water oxygen has
  a negative \<open>x\<close> that numpy accepts, but the first one raised before it and the frame
  was abandoned. In both the matrix holds the counts of the first frame only, whether
  the translation moves every frame or the first frame only.
\<close>

theorem C8_counterexample:
  "observations (moveBy_frames ex_lib) (water_OH2 ex_lib) 1 (map (unit_cell ex_lib) [ex_cross]) =
     [(2, 1, 1), (- 1, 31, 1)] \<and>
   accepted 12 (- 1) \<and>
   matrix_incr (replicate 12 (replicate 12 (replicate 12 0))) (- 1, 31, 1) = Inl IndexError \<and>
   matrix (snd (projr (binned ex_lib [ex_cross]))) =
     bump (replicate 12 (replicate 12 (replicate 12 0))) (2, 1, 1) \<and>
   observations (moveBy_frames ex_lib0) (water_OH2 ex_lib0) 1 (map (unit_cell ex_lib0) [ex_cross]) =
     [(2, 1, 1), (- 2, 30, 0)] \<and>
   accepted 12 (- 2) \<and>
   matrix_incr (replicate 12 (replicate 12 (replicate 12 0))) (- 2, 30, 0) = Inl IndexError \<and>
   matrix (snd (projr (binned ex_lib0 [ex_cross]))) =
     bump (replicate 12 (replicate 12 (replicate 12 0))) (2, 1, 1) \<and>
   observations (moveBy_frames ex_lib) (water_OH2 ex_lib) 1 (map (unit_cell ex_lib) [ex_late]) =
     [(2, 1, 1), (1, 1, 1), (21, 1, 1), (- 1, 1, 1)] \<and>
   matrix_incr (replicate 12 (replicate 12 (replicate 12 0))) (- 1, 1, 1) =
     Inr (bump (replicate 12 (replicate 12 (replicate 12 0))) (11, 1, 1)) \<and>
   matrix (snd (projr (binned ex_lib [ex_late]))) =
     bump (bump (replicate 12 (replicate 12 (replicate 12 0))) (2, 1, 1)) (1, 1, 1) \<and>
   observations (moveBy_frames ex_lib0) (water_OH2 ex_lib0) 1 (map (unit_cell ex_lib0) [ex_late]) =
     [(2, 1, 1), (1, 1, 1), (20, 0, 0), (- 2, 0, 0)] \<and>
   matrix_incr (replicate 12 (replicate 12 (replicate 12 0))) (- 2, 0, 0) =
     Inr (bump (replicate 12 (replicate 12 (replicate 12 0))) (10, 0, 0)) \<and>
   matrix (snd (projr (binned ex_lib0 [ex_late]))) =
     bump (bump (replicate 12 (replicate 12 (replicate 12 0))) (2, 1, 1)) (1, 1, 1)"
  by code_simp

text \<open>
  C9 (as amended). The divisor of the normalisation is
  \<open>len(water.step) * len(water.coords) * len(sims)\<close> with \<open>water\<close> the water copy of the
  last trajectory, the object the binning loop left in that variable; it equals the
  total number of observations whenever every trajectory has the frame count and the
  water oxygen count of the last one.
\<close>

theorem C9_divisor_from_last_trajectory:
  assumes "run L sims = Inr nb"
  shows "\<exists>w. water (vars nb) = Some w \<and>
           heap (vars nb) ! w = water_copy (moveBy_frames L) (water_OH2 L) (D_max nb) (unit_cell L (last sims)) \<and>
           denominator (vars nb) (length sims) =
             Inr (length (step (heap (vars nb) ! w)) * length (coords (heap (vars nb) ! w)) * length sims) \<and>
           norm_matrix nb =
             map (map (map (\<lambda>x. x / real (length (step (heap (vars nb) ! w)) *
                                          length (coords (heap (vars nb) ! w)) * length sims))))
               (matrix (vars nb)) \<and>
           (uniform L (D_max nb) sims \<longrightarrow>
              length (step (heap (vars nb) ! w)) * length (coords (heap (vars nb) ! w)) * length sims =
              total_observations L (D_max nb) sims)"
proof -
  let ?D = "D_max nb"
  from run_binned [OF assms] obtain s where b: "binned L sims = Inr (?D, s)" by blast
  let ?G = "gaussian_filter L (matrix s) (3 / 2)"
  let ?w = "2 * length sims - 1"
  from run_fields [OF assms b]
  have v: "vars nb = s\<lparr>matrix := ?G\<rparr>"
    and n: "norm_matrix nb = map (map (map (\<lambda>x. x / real (divisor L ?D sims)))) ?G"
    by blast+
  from binned_state [OF b] have w: "water s = Some ?w" and h: "heap s ! ?w = last_water L ?D sims"
    by simp_all
  have 1: "water (vars nb) = Some ?w" using v w by simp
  have 2: "heap (vars nb) ! ?w = water_copy (moveBy_frames L) (water_OH2 L) ?D (unit_cell L (last sims))"
    using v h by (simp add: last_water_def)
  have e: "length (step (heap (vars nb) ! ?w)) * length (coords (heap (vars nb) ! ?w)) * length sims
      = divisor L ?D sims"
    using v h by (simp add: divisor_def)
  have 3: "denominator (vars nb) (length sims) =
      Inr (length (step (heap (vars nb) ! ?w)) * length (coords (heap (vars nb) ! ?w)) * length sims)"
    unfolding e unfolding v by (rule denominator_binned [OF b])
  have 4: "norm_matrix nb =
      map (map (map (\<lambda>x. x / real (length (step (heap (vars nb) ! ?w)) *
                                   length (coords (heap (vars nb) ! ?w)) * length sims))))
        (matrix (vars nb))"
    unfolding e using n v by simp
  have 5: "uniform L ?D sims \<longrightarrow>
      length (step (heap (vars nb) ! ?w)) * length (coords (heap (vars nb) ! ?w)) * length sims =
      total_observations L ?D sims"
    unfolding e by (simp add: uniform_total)
  from 1 2 3 4 5 show ?thesis by blast
qed

theorem C9_divisor_from_last_trajectory_witness:
  "\<exists>nb. run ex_lib [ex_drift, ex_drift] = Inr nb \<and>
      denominator (vars nb) (length [ex_drift, ex_drift]) = Inr 4 \<and>
      total_observations ex_lib 1 [ex_drift, ex_drift] = 4"
proof -
  let ?sims = "[ex_drift, ex_drift]"
  have "\<exists>D s. binned ex_lib ?sims = Inr (D, s) \<and> 0 \<le> D"
    by (rule binned_total) (simp_all add: ex_lib_def)
  then obtain D s where b: "binned ex_lib ?sims = Inr (D, s)" by blast
  have "fst (projr (binned ex_lib ?sims)) = 1" by code_simp
  with b have D: "D = 1" by simp
  note b1 = b [unfolded D]
  have d: "divisor ex_lib 1 ?sims \<noteq> 0" by code_simp
  from run_total [OF b1 ex_lib_smoothing d]
  obtain nb where r: "run ex_lib ?sims = Inr nb" by blast
  from run_fields [OF r b1] have dm: "D_max nb = 1" by blast
  have u: "uniform ex_lib 1 ?sims" by code_simp
  have t: "total_observations ex_lib 1 ?sims = 4" by code_simp
  from C9_divisor_from_last_trajectory [OF r] obtain w where
    den: "denominator (vars nb) (length ?sims) =
        Inr (length (step (heap (vars nb) ! w)) * length (coords (heap (vars nb) ! w)) * length ?sims)"
    and tot: "uniform ex_lib (D_max nb) ?sims \<longrightarrow>
        length (step (heap (vars nb) ! w)) * length (coords (heap (vars nb) ! w)) * length ?sims =
        total_observations ex_lib (D_max nb) ?sims"
    by blast
  from tot u t have "length (step (heap (vars nb) ! w)) * length (coords (heap (vars nb) ! w)) * length ?sims = 4"
    unfolding dm by simp
  with den have "denominator (vars nb) (length ?sims) = Inr 4" by simp
  with r t show ?thesis by blast
qed

text \<open>
  The claim as stated fails in its "only when": three trajectories with one water oxygen
  each and 1, 3 and 2 frames have 6 observations, and the divisor is \<open>2 * 1 * 3 = 6\<close>,
  though their frame counts differ.
\<close>

theorem C9_counterexample:
  "\<not> isl (run ex_lib [ex_short, ex_long, ex_drift]) \<and>
   D_max (projr (run ex_lib [ex_short, ex_long, ex_drift])) = 1 \<and>
   denominator (vars (projr (run ex_lib [ex_short, ex_long, ex_drift]))) 3 = Inr 6 \<and>
   total_observations ex_lib 1 [ex_short, ex_long, ex_drift] = 6 \<and>
   \<not> uniform ex_lib 1 [ex_short, ex_long, ex_drift]"
proof -
  let ?sims = "[ex_short, ex_long, ex_drift]"
  have "\<exists>D s. binned ex_lib ?sims = Inr (D, s) \<and> 0 \<le> D"
    by (rule binned_total) (simp_all add: ex_lib_def)
  then obtain D s where b: "binned ex_lib ?sims = Inr (D, s)" by blast
  have "fst (projr (binned ex_lib ?sims)) = 1" by code_simp
  with b have D: "D = 1" by simp
  note b1 = b [unfolded D]
  have d: "divisor ex_lib 1 ?sims = 6" by code_simp
  from run_total [OF b1 ex_lib_smoothing] d
  obtain nb where r: "run ex_lib ?sims = Inr nb" by auto
  from run_fields [OF r b1] have v: "vars nb = s\<lparr>matrix := gaussian_filter ex_lib (matrix s) (3 / 2)\<rparr>"
    and dm: "D_max nb = 1" by blast+
  have den: "denominator (vars nb) 3 = Inr 6"
    unfolding v using denominator_binned [OF b1, of "gaussian_filter ex_lib (matrix s) (3 / 2)"] d
    by (simp add: numeral_3_eq_3)
  have t: "total_observations ex_lib 1 ?sims = 6" by code_simp
  have u: "\<not> uniform ex_lib 1 ?sims" by code_simp
  from r den dm t u show ?thesis by simp
qed

text \<open>
  C10. After the binning loop the object of each trajectory is the loaded trajectory
  moved by \<open>[D_max, D_max, D_max]\<close>: its atoms, its steps and the number of its
  coordinate rows are those it was loaded with. The filtered water molecule is another
  object of the store, the copy.
\<close>

theorem C10_trajectories_only_translated:
  assumes "binned L sims = Inr (D, s)"
  shows "\<forall>i < length sims.
           heap s ! i = moveBy (moveBy_frames L) (of_int D, of_int D, of_int D) (unit_cell L (sims ! i)) \<and>
           atominfo (heap s ! i) = atominfo (unit_cell L (sims ! i)) \<and>
           step (heap s ! i) = step (unit_cell L (sims ! i)) \<and>
           length (coords (heap s ! i)) = length (coords (unit_cell L (sims ! i))) \<and>
           heap s ! (length sims + i) = filter_mol (water_OH2 L) (heap s ! i)"
proof (intro allI impI)
  fix i assume i: "i < length sims"
  from binned_state [OF assms] i
  have t: "heap s ! i = translated (moveBy_frames L) D (unit_cell L (sims ! i))"
    and w: "heap s ! (length sims + i) = water_copy (moveBy_frames L) (water_OH2 L) D (unit_cell L (sims ! i))"
    by simp_all
  show "heap s ! i = moveBy (moveBy_frames L) (of_int D, of_int D, of_int D) (unit_cell L (sims ! i)) \<and>
        atominfo (heap s ! i) = atominfo (unit_cell L (sims ! i)) \<and>
        step (heap s ! i) = step (unit_cell L (sims ! i)) \<and>
        length (coords (heap s ! i)) = length (coords (unit_cell L (sims ! i))) \<and>
        heap s ! (length sims + i) = filter_mol (water_OH2 L) (heap s ! i)"
    unfolding w t by (simp add: translated_def water_copy_def moveBy_fields)
qed

theorem C10_trajectories_only_translated_witness:
  "(\<exists>s. binned ex_lib [ex_drift] = Inr (1, s) \<and>
       heap s ! 0 = \<lparr>atominfo = [''OH2'', ''CA''],
                      coords = [[(2, 1, 1), (- 1, 1, 1)], [(1, 1, 1), (1, 1, 1)]], step = [0, 1]\<rparr> \<and>
       heap s ! 1 = \<lparr>atominfo = [''OH2''], coords = [[(2, 1, 1), (- 1, 1, 1)]], step = [0, 1]\<rparr>) \<and>
   (\<exists>s. binned ex_lib0 [ex_drift] = Inr (1, s) \<and>
       heap s ! 0 = \<lparr>atominfo = [''OH2'', ''CA''],
                      coords = [[(2, 1, 1), (- 2, 0, 0)], [(1, 1, 1), (0, 0, 0)]], step = [0, 1]\<rparr> \<and>
       heap s ! 1 = \<lparr>atominfo = [''OH2''], coords = [[(2, 1, 1), (- 2, 0, 0)]], step = [0, 1]\<rparr>)"
proof -
  let ?sims = "[ex_drift]"
  have "\<exists>D s. binned ex_lib ?sims = Inr (D, s) \<and> 0 \<le> D"
    by (rule binned_total) (simp_all add: ex_lib_def)
  then obtain D s where b: "binned ex_lib ?sims = Inr (D, s)" by blast
  have "fst (projr (binned ex_lib ?sims)) = 1" by code_simp
  with b have b1: "binned ex_lib ?sims = Inr (1, s)" by simp
  have m: "moveBy (moveBy_frames ex_lib) (1, 1, 1) (unit_cell ex_lib ex_drift) =
      \<lparr>atominfo = [''OH2'', ''CA''],
        coords = [[(2, 1, 1), (- 1, 1, 1)], [(1, 1, 1), (1, 1, 1)]], step = [0, 1]\<rparr>"
    by code_simp
  have f: "filter_mol (water_OH2 ex_lib) \<lparr>atominfo = [''OH2'', ''CA''],
        coords = [[(2, 1, 1), (- 1, 1, 1)], [(1, 1, 1), (1, 1, 1)]], step = [0, 1]\<rparr> =
      \<lparr>atominfo = [''OH2''], coords = [[(2, 1, 1), (- 1, 1, 1)]], step = [0, 1]\<rparr>"
    by code_simp
  from C10_trajectories_only_translated [OF b1, rule_format, of 0]
  have "heap s ! 0 = moveBy (moveBy_frames ex_lib) (1, 1, 1) (unit_cell ex_lib ex_drift)"
    and "heap s ! 1 = filter_mol (water_OH2 ex_lib) (heap s ! 0)"
    by simp_all
  with m f b1 have 1: "\<exists>s. binned ex_lib [ex_drift] = Inr (1, s) \<and>
       heap s ! 0 = \<lparr>atominfo = [''OH2'', ''CA''],
                      coords = [[(2, 1, 1), (- 1, 1, 1)], [(1, 1, 1), (1, 1, 1)]], step = [0, 1]\<rparr> \<and>
       heap s ! 1 = \<lparr>atominfo = [''OH2''], coords = [[(2, 1, 1), (- 1, 1, 1)]], step = [0, 1]\<rparr>"
    by auto
  have "\<exists>D s. binned ex_lib0 ?sims = Inr (D, s) \<and> 0 \<le> D"
    by (rule binned_total) (simp_all add: ex_lib0_def)
  then obtain D' s' where b': "binned ex_lib0 ?sims = Inr (D', s')" by blast
  have "fst (projr (binned ex_lib0 ?sims)) = 1" by code_simp
  with b' have b1': "binned ex_lib0 ?sims = Inr (1, s')" by simp
  have m': "moveBy (moveBy_frames ex_lib0) (1, 1, 1) (unit_cell ex_lib0 ex_drift) =
      \<lparr>atominfo = [''OH2'', ''CA''],
        coords = [[(2, 1, 1), (- 2, 0, 0)], [(1, 1, 1), (0, 0, 0)]], step = [0, 1]\<rparr>"
    by code_simp
  have f': "filter_mol (water_OH2 ex_lib0) \<lparr>atominfo = [''OH2'', ''CA''],
        coords = [[(2, 1, 1), (- 2, 0, 0)], [(1, 1, 1), (0, 0, 0)]], step = [0, 1]\<rparr> =
      \<lparr>atominfo = [''OH2''], coords = [[(2, 1, 1), (- 2, 0, 0)]], step = [0, 1]\<rparr>"
    by code_simp
  from C10_trajectories_only_translated [OF b1', rule_format, of 0]
  have "heap s' ! 0 = moveBy (moveBy_frames ex_lib0) (1, 1, 1) (unit_cell ex_lib0 ex_drift)"
    and "heap s' ! 1 = filter_mol (water_OH2 ex_lib0) (heap s' ! 0)"
    by simp_all
  with m' f' b1' have 2: "\<exists>s. binned ex_lib0 [ex_drift] = Inr (1, s) \<and>
       heap s ! 0 = \<lparr>atominfo = [''OH2'', ''CA''],
                      coords = [[(2, 1, 1), (- 2, 0, 0)], [(1, 1, 1), (0, 0, 0)]], step = [0, 1]\<rparr> \<and>
       heap s ! 1 = \<lparr>atominfo = [''OH2''], coords = [[(2, 1, 1), (- 2, 0, 0)]], step = [0, 1]\<rparr>"
    by auto
  from 1 2 show ?thesis by (rule conjI)
qed

end
